theory Spec2Isabelle
  imports Main "HOL-Library.Multiset"
begin

section \<open>The VLSM subnet calculator of \<^verbatim>\<open>vlsm_table.py\<close>\<close>

text \<open>
  The program is one function, \<^verbatim>\<open>skuska\<close>, behind a button. It reads a parent network and a
  text of host counts, sorts the counts in descending order, walks a cursor through the
  parent's address space and shows a table with one row per subnet. Message boxes are modelled
  as values of the type \<open>error\<close>, one constructor per call site; the table that is shown is the
  value of the function.

  Python's integers are \<open>int\<close>. An \<^verbatim>\<open>IPv4Address\<close> is the natural number it holds, which the
  class keeps below \<open>2 ^ 32\<close>: arithmetic that leaves the range raises
  \<^verbatim>\<open>AddressValueError\<close>, a \<^verbatim>\<open>ValueError\<close>. Text is ASCII text: a \<open>char\<close> is one byte.

  The parent network is the IPv4 network that line 33 has built from the first entry field;
  the model starts from that value. Memory is unbounded: the list of hosts that line 98
  builds to count it always fits.
\<close>

subsection \<open>Exceptions and message boxes\<close>

datatype exn = ValueError

record network =
  network_address :: nat
  prefixlen :: nat

datatype error =
    Input_error_missing
  | Input_error_hosts
  | Input_error_no_hosts
  | Allocation_error_space int
  | Prefix_error int int nat
  | Allocation_error_boundary int network
  | Calculation_error

subsection \<open>The library: \<^verbatim>\<open>str\<close> and \<^verbatim>\<open>int\<close>\<close>

text \<open>\<^verbatim>\<open>str.isspace\<close> on ASCII: tab to carriage return, the four separators, the space.\<close>

definition isspace :: "char \<Rightarrow> bool" where
  "isspace c = (let n = (of_char c :: nat) in (9 \<le> n \<and> n \<le> 13) \<or> (28 \<le> n \<and> n \<le> 32))"

definition strip :: "string \<Rightarrow> string" where
  "strip s = rev (dropWhile isspace (rev (dropWhile isspace s)))"

text \<open>\<^verbatim>\<open>hosts_raw.replace(',', '\n')\<close>.\<close>

definition replace_comma :: "string \<Rightarrow> string" where
  "replace_comma s = map (\<lambda>c. if c = CHR '','' then CHR 0x0A else c) s"

text \<open>
  \<^verbatim>\<open>str.splitlines\<close> on ASCII: a line ends at \<^verbatim>\<open>\n\<close>, \<^verbatim>\<open>\r\<close>, \<^verbatim>\<open>\r\n\<close>, \<^verbatim>\<open>\v\<close>, \<^verbatim>\<open>\f\<close> and
  the separators \<^verbatim>\<open>\x1c\<close>, \<^verbatim>\<open>\x1d\<close>, \<^verbatim>\<open>\x1e\<close>; the line ends are dropped and a text that
  ends with one has no empty last line.
\<close>

definition islinebreak :: "char \<Rightarrow> bool" where
  "islinebreak c = (let n = (of_char c :: nat) in (10 \<le> n \<and> n \<le> 13) \<or> (28 \<le> n \<and> n \<le> 30))"

fun splitlines_from :: "string \<Rightarrow> string \<Rightarrow> string list" where
  "splitlines_from cur [] = (if cur = [] then [] else [rev cur])"
| "splitlines_from cur [c] = (if islinebreak c then [rev cur] else [rev (c # cur)])"
| "splitlines_from cur (c # d # cs) =
     (if c = CHR 0x0D \<and> d = CHR 0x0A then rev cur # splitlines_from [] cs
      else if islinebreak c then rev cur # splitlines_from [] (d # cs)
      else splitlines_from (c # cur) (d # cs))"

definition splitlines :: "string \<Rightarrow> string list" where
  "splitlines s = splitlines_from [] s"

text \<open>
  \<^verbatim>\<open>int(s)\<close> in base 10 on ASCII: surrounding whitespace, one optional sign, then decimal
  digits, where single underscores may stand between two digits. Anything else raises
  \<^verbatim>\<open>ValueError\<close>, and so does a literal of more than 4300 digits (the interpreter's default
  limit on the length of a decimal literal). The whitespace that \<^verbatim>\<open>int\<close> skips is tab to
  carriage return and the space; the four separators are not skipped.
\<close>

definition int_isspace :: "char \<Rightarrow> bool" where
  "int_isspace c = (let n = (of_char c :: nat) in (9 \<le> n \<and> n \<le> 13) \<or> n = 32)"

definition isdigit :: "char \<Rightarrow> bool" where
  "isdigit c = (let n = (of_char c :: nat) in 48 \<le> n \<and> n \<le> 57)"

definition digit_value :: "char \<Rightarrow> nat" where
  "digit_value c = of_char c - 48"

fun digits_from :: "bool \<Rightarrow> nat \<Rightarrow> string \<Rightarrow> exn + nat" where
  "digits_from after_digit acc [] = (if after_digit then Inr acc else Inl ValueError)"
| "digits_from after_digit acc (c # cs) =
     (if isdigit c then digits_from True (10 * acc + digit_value c) cs
      else if c = CHR ''_'' \<and> after_digit then digits_from False acc cs
      else Inl ValueError)"

definition py_int :: "string \<Rightarrow> exn + int" where
  "py_int s =
     (let t = rev (dropWhile int_isspace (rev (dropWhile int_isspace s)));
          negative = (case t of c # _ \<Rightarrow> c = CHR ''-'' | [] \<Rightarrow> False);
          signed = (case t of c # _ \<Rightarrow> c = CHR ''-'' \<or> c = CHR ''+'' | [] \<Rightarrow> False);
          body = (if signed then tl t else t)
      in if 4300 < length (filter isdigit body) then Inl ValueError
         else (case digits_from False 0 body of
                 Inl e \<Rightarrow> Inl e
               | Inr n \<Rightarrow> Inr (if negative then - int n else int n)))"

text \<open>\<^verbatim>\<open>int.bit_length\<close>: the number of binary digits of the absolute value, 0 for 0.\<close>

fun bit_length_nat :: "nat \<Rightarrow> nat" where
  "bit_length_nat n = (if n = 0 then 0 else Suc (bit_length_nat (n div 2)))"

declare bit_length_nat.simps [simp del]

definition bit_length :: "int \<Rightarrow> nat" where
  "bit_length i = bit_length_nat (nat \<bar>i\<bar>)"

subsection \<open>The library: \<^verbatim>\<open>ipaddress\<close>, for IPv4\<close>

definition ALL_ONES :: nat where
  "ALL_ONES = 2 ^ 32 - 1"

text \<open>\<^verbatim>\<open>IPv4Address(n)\<close> for an integer \<open>n\<close>; \<open>+\<close> and \<open>-\<close> of an address and an integer go through it.\<close>

definition IPv4Address :: "int \<Rightarrow> exn + nat" where
  "IPv4Address n = (if n < 0 \<or> int ALL_ONES < n then Inl ValueError else Inr (nat n))"

definition address_add :: "nat \<Rightarrow> int \<Rightarrow> exn + nat" where
  "address_add a k = IPv4Address (int a + k)"

definition address_sub :: "nat \<Rightarrow> int \<Rightarrow> exn + nat" where
  "address_sub a k = IPv4Address (int a - k)"

definition netmask :: "network \<Rightarrow> nat" where
  "netmask n = 2 ^ 32 - 2 ^ (32 - prefixlen n)"

definition hostmask :: "network \<Rightarrow> nat" where
  "hostmask n = 2 ^ (32 - prefixlen n) - 1"

definition broadcast_address :: "network \<Rightarrow> nat" where
  "broadcast_address n = or (network_address n) (hostmask n)"

definition num_addresses :: "network \<Rightarrow> nat" where
  "num_addresses n = broadcast_address n - network_address n + 1"

text \<open>
  \<^verbatim>\<open>ip_network(f"{address}/{prefix}", strict=False)\<close> for an address and an integer prefix:
  a prefix outside 0..32 raises, and host bits of the address are cleared, not refused.
\<close>

definition ip_network :: "nat \<Rightarrow> int \<Rightarrow> exn + network" where
  "ip_network a p =
     (if p < 0 \<or> 32 < p then Inl ValueError
      else Inr \<lparr>network_address = and a (2 ^ 32 - 2 ^ (32 - nat p)), prefixlen = nat p\<rparr>)"

text \<open>
  \<^verbatim>\<open>hosts()\<close>: the addresses between network and broadcast address; a /31 gives both of its
  addresses and a /32 its one address.
\<close>

definition hosts :: "network \<Rightarrow> nat list" where
  "hosts n =
     (if prefixlen n = 31 then [network_address n ..< broadcast_address n + 1]
      else if prefixlen n = 32 then [network_address n]
      else [network_address n + 1 ..< broadcast_address n])"

text \<open>
  What line 33 yields for IPv4 input: a prefix length of at most 32 and an address below
  \<open>2 ^ 32\<close> without host bits.
\<close>

definition valid_network :: "network \<Rightarrow> bool" where
  "valid_network n =
     (prefixlen n \<le> 32 \<and> network_address n < 2 ^ 32 \<and>
      network_address n mod 2 ^ (32 - prefixlen n) = 0)"

subsection \<open>Lines 38 to 47: the host list\<close>

fun int_all :: "string list \<Rightarrow> exn + int list" where
  "int_all [] = Inr []"
| "int_all (t # ts) =
     (case py_int t of
        Inl e \<Rightarrow> Inl e
      | Inr h \<Rightarrow> (case int_all ts of Inl e \<Rightarrow> Inl e | Inr hs \<Rightarrow> Inr (h # hs)))"

text \<open>
  \<^verbatim>\<open>[int(h.strip()) for h in hosts_raw.replace(',', '\n').splitlines() if h.strip()]\<close>
\<close>

definition hosts_list_of :: "string \<Rightarrow> exn + int list" where
  "hosts_list_of hosts_raw =
     int_all (map strip (filter (\<lambda>h. strip h \<noteq> []) (splitlines (replace_comma hosts_raw))))"

text \<open>
  \<^verbatim>\<open>hosts_list.sort(reverse=True)\<close>: descending and stable, that is, a stable sort on the
  negated values.
\<close>

definition sort_reverse :: "int list \<Rightarrow> int list" where
  "sort_reverse hs = sort_key uminus hs"

subsection \<open>Lines 53 to 124: the allocation loop\<close>

record row =
  Requested :: int
  Net_IP_prefix :: network
  Mask :: nat
  First_host :: "nat option"
  Last_host :: "nat option"
  Broadcast :: nat
  Usable_IP :: nat

text \<open>
  A row holds the addresses whose dotted-quad text the table shows; \<open>None\<close> is the text
  \<^verbatim>\<open>"N/A"\<close>.
\<close>

record state =
  current_ip :: nat
  results :: "row list"

datatype flow = Next state | Break error state | Return error

definition bits_needed :: "int \<Rightarrow> nat" where
  "bits_needed requested_hosts = bit_length (requested_hosts + 1)"

definition new_prefix :: "int \<Rightarrow> int" where
  "new_prefix requested_hosts = 32 - int (bits_needed requested_hosts)"

text \<open>Lines 93 to 117, the row of a subnet, after the three address computations.\<close>

definition make_row :: "int \<Rightarrow> network \<Rightarrow> nat \<Rightarrow> nat \<Rightarrow> row" where
  "make_row requested_hosts new_subnet first_host last_host =
     (let usable_ips = length (hosts new_subnet)
      in if usable_ips < 1
         then \<lparr>Requested = requested_hosts, Net_IP_prefix = new_subnet,
               Mask = netmask new_subnet, First_host = None, Last_host = None,
               Broadcast = broadcast_address new_subnet, Usable_IP = 0\<rparr>
         else \<lparr>Requested = requested_hosts, Net_IP_prefix = new_subnet,
               Mask = netmask new_subnet, First_host = Some first_host,
               Last_host = Some last_host,
               Broadcast = broadcast_address new_subnet, Usable_IP = usable_ips\<rparr>)"

text \<open>
  One pass through the body of the loop. A \<^verbatim>\<open>ValueError\<close> inside the \<^verbatim>\<open>try\<close> leaves the loop
  with the rows appended so far, also when it is raised after the \<^verbatim>\<open>append\<close> (line 120).
\<close>

definition body :: "network \<Rightarrow> state \<Rightarrow> int \<Rightarrow> flow" where
  "body current_network s requested_hosts =
     (if int (num_addresses current_network) < requested_hosts + 2
      then Break (Allocation_error_space requested_hosts) s
      else if new_prefix requested_hosts < int (prefixlen current_network)
      then Return (Prefix_error requested_hosts (new_prefix requested_hosts)
                     (prefixlen current_network))
      else (case ip_network (current_ip s) (new_prefix requested_hosts) of
              Inl e \<Rightarrow> Break Calculation_error s
            | Inr new_subnet \<Rightarrow>
                if broadcast_address current_network < broadcast_address new_subnet
                then Break (Allocation_error_boundary requested_hosts new_subnet) s
                else (case address_add (network_address new_subnet) 1 of
                        Inl e \<Rightarrow> Break Calculation_error s
                      | Inr first_host \<Rightarrow>
                          (case address_sub (broadcast_address new_subnet) 1 of
                             Inl e \<Rightarrow> Break Calculation_error s
                           | Inr last_host \<Rightarrow>
                               (let s' = s\<lparr>results := results s @
                                          [make_row requested_hosts new_subnet first_host last_host]\<rparr>
                                in case address_add (broadcast_address new_subnet) 1 of
                                     Inl e \<Rightarrow> Break Calculation_error s'
                                   | Inr ip \<Rightarrow> Next (s'\<lparr>current_ip := ip\<rparr>))))))"

fun loop :: "network \<Rightarrow> state \<Rightarrow> int list \<Rightarrow> flow" where
  "loop current_network s [] = Next s"
| "loop current_network s (requested_hosts # hosts_list) =
     (case body current_network s requested_hosts of
        Next s' \<Rightarrow> loop current_network s' hosts_list
      | Break e s' \<Rightarrow> Break e s'
      | Return e \<Rightarrow> Return e)"

subsection \<open>Lines 128 to 159: the table\<close>

text \<open>
  Without rows the table is one row of \<^verbatim>\<open>"N/A"\<close> that points to the message shown before.
\<close>

datatype table = Rows "row list" | Error_row

datatype outcome = Returned error | Shown "error option" table

definition show_table :: "flow \<Rightarrow> outcome" where
  "show_table f =
     (case f of
        Return e \<Rightarrow> Returned e
      | Next s \<Rightarrow> Shown None (if results s = [] then Error_row else Rows (results s))
      | Break e s \<Rightarrow> Shown (Some e) (if results s = [] then Error_row else Rows (results s)))"

definition records :: "outcome \<Rightarrow> row list" where
  "records out = (case out of Shown e (Rows rs) \<Rightarrow> rs | _ \<Rightarrow> [])"

subsection \<open>The function \<^verbatim>\<open>skuska\<close>\<close>

text \<open>Lines 44 to 159, from the parsed host list on.\<close>

definition allocate :: "network \<Rightarrow> int list \<Rightarrow> outcome" where
  "allocate current_network hosts_list0 =
     (let hosts_list = sort_reverse hosts_list0
      in if hosts_list = [] then Returned Input_error_no_hosts
         else show_table
                (loop current_network
                   \<lparr>current_ip = network_address current_network, results = []\<rparr> hosts_list))"

text \<open>
  The whole function, for a parent network that line 33 has accepted and the text of the
  host box. Sorting integers raises nothing, so the \<^verbatim>\<open>try\<close> of line 38 is left by an exception
  only from \<^verbatim>\<open>int\<close>.
\<close>

definition skuska :: "network \<Rightarrow> string \<Rightarrow> outcome" where
  "skuska current_network hosts_text =
     (let hosts_raw = strip hosts_text
      in if hosts_raw = [] then Returned Input_error_missing
         else (case hosts_list_of hosts_raw of
                 Inl e \<Rightarrow> Returned Input_error_hosts
               | Inr hosts_list0 \<Rightarrow> allocate current_network hosts_list0))"

text \<open>
  The parent network the entry field starts with (line 179), \<^verbatim>\<open>192.168.1.0/24\<close>, as line 33
  reads it.
\<close>

definition default_network :: network where
  "default_network = \<lparr>network_address = 3232235776, prefixlen = 24\<rparr>"

subsection \<open>Predicates on rows and cursors\<close>

text \<open>
  The properties of rows and of the cursor that the statements below are about. A row lies
  in the parent when its subnet starts at or after the parent's network address and ends at or
  before the parent's broadcast address.
\<close>

definition in_parent :: "network \<Rightarrow> row \<Rightarrow> bool" where
  "in_parent P r \<longleftrightarrow> network_address P \<le> network_address (Net_IP_prefix r) \<and>
     network_address (Net_IP_prefix r) \<le> Broadcast r \<and>
     Broadcast r = broadcast_address (Net_IP_prefix r) \<and>
     Broadcast r \<le> broadcast_address P"

text \<open>A row of a positive request covers it when it offers at least that many hosts.\<close>

definition covers :: "row \<Rightarrow> bool" where
  "covers r \<longleftrightarrow> (1 \<le> Requested r \<longrightarrow> Requested r \<le> int (Usable_IP r))"

text \<open>
  A row is counted when it shows both host bounds and at least one host, and, for a prefix
  length up to 30, all addresses of the subnet but two.
\<close>

definition counted :: "row \<Rightarrow> bool" where
  "counted r \<longleftrightarrow> First_host r \<noteq> None \<and> Last_host r \<noteq> None \<and> 1 \<le> Usable_IP r \<and>
     (prefixlen (Net_IP_prefix r) \<le> 30 \<longrightarrow>
        Usable_IP r = num_addresses (Net_IP_prefix r) - 2)"

text \<open>A request passes the two guards of lines 63 and 75 and so reaches line 84.\<close>

definition passes_guards :: "network \<Rightarrow> int \<Rightarrow> bool" where
  "passes_guards P h \<longleftrightarrow>
     \<not> int (num_addresses P) < h + 2 \<and> \<not> new_prefix h < int (prefixlen P)"

text \<open>The cursor is a multiple of the block size of every request that reaches line 84.\<close>

definition fits_all :: "network \<Rightarrow> nat \<Rightarrow> int list \<Rightarrow> bool" where
  "fits_all P c hs \<longleftrightarrow> (\<forall>h\<in>set hs. passes_guards P h \<longrightarrow> 2 ^ bits_needed h dvd c)"

text \<open>
  Rows are packed from an address when the first subnet starts there and each next one
  starts right after the broadcast address of the one before; the cursor after them is the
  address after the last broadcast address.
\<close>

fun packed_from :: "nat \<Rightarrow> row list \<Rightarrow> bool" where
  "packed_from c [] = True"
| "packed_from c (r # rs) =
     (network_address (Net_IP_prefix r) = c \<and> packed_from (Broadcast r + 1) rs)"

fun cursor_after :: "nat \<Rightarrow> row list \<Rightarrow> nat" where
  "cursor_after c [] = c"
| "cursor_after c (r # rs) = cursor_after (Broadcast r + 1) rs"

section \<open>Facts about the library functions\<close>

subsection \<open>\<^verbatim>\<open>bit_length\<close>\<close>

lemma bit_length_nat_upper: "n < 2 ^ bit_length_nat n"
proof (induction n rule: bit_length_nat.induct)
  case (1 n)
  show ?case
  proof (cases "n = 0")
    case True
    then show ?thesis by (simp add: bit_length_nat.simps)
  next
    case False
    with 1 have "n div 2 < 2 ^ bit_length_nat (n div 2)" by simp
    then have "n < 2 * 2 ^ bit_length_nat (n div 2)" by linarith
    with False show ?thesis by (subst bit_length_nat.simps) simp
  qed
qed

lemma bit_length_nat_least: "n < 2 ^ k \<Longrightarrow> bit_length_nat n \<le> k"
proof (induction n arbitrary: k rule: bit_length_nat.induct)
  case (1 n)
  show ?case
  proof (cases "n = 0")
    case True
    then show ?thesis by (simp add: bit_length_nat.simps)
  next
    case False
    with 1(2) obtain j where k: "k = Suc j" by (cases k) auto
    with 1(2) have "n div 2 < 2 ^ j" by simp
    with 1(1) False have "bit_length_nat (n div 2) \<le> j" by simp
    with False k show ?thesis by (subst bit_length_nat.simps) simp
  qed
qed

lemma bit_length_nat_lower: "n \<noteq> 0 \<Longrightarrow> 2 ^ (bit_length_nat n - 1) \<le> n"
proof (rule ccontr)
  assume n: "n \<noteq> 0" and "\<not> 2 ^ (bit_length_nat n - 1) \<le> n"
  then have "n < 2 ^ (bit_length_nat n - 1)" by simp
  then have "bit_length_nat n \<le> bit_length_nat n - 1" by (rule bit_length_nat_least)
  moreover from n have "0 < bit_length_nat n" by (subst bit_length_nat.simps) simp
  ultimately show False by simp
qed

lemma bit_length_nat_mono: "m \<le> n \<Longrightarrow> bit_length_nat m \<le> bit_length_nat n"
  by (rule bit_length_nat_least) (use bit_length_nat_upper [of n] in simp)

lemma bit_length_nat_iff: "bit_length_nat n \<le> k \<longleftrightarrow> n < 2 ^ k"
proof
  assume "bit_length_nat n \<le> k"
  then have "(2::nat) ^ bit_length_nat n \<le> 2 ^ k" by simp
  with bit_length_nat_upper [of n] show "n < 2 ^ k" by linarith
qed (rule bit_length_nat_least)

lemma bits_needed_iff: "-1 \<le> h \<Longrightarrow> bits_needed h \<le> k \<longleftrightarrow> h + 2 \<le> 2 ^ k"
proof -
  assume h: "-1 \<le> h"
  have "bits_needed h \<le> k \<longleftrightarrow> nat (h + 1) < 2 ^ k"
    using h by (simp add: bits_needed_def bit_length_def bit_length_nat_iff)
  also have "\<dots> \<longleftrightarrow> h + 1 < 2 ^ k"
    using h by (simp add: nat_less_iff)
  finally show ?thesis by auto
qed

lemma bits_needed_mono: "-1 \<le> h' \<Longrightarrow> h' \<le> h \<Longrightarrow> bits_needed h' \<le> bits_needed h"
  by (simp add: bits_needed_def bit_length_def bit_length_nat_mono)

subsection \<open>Networks\<close>

lemma mask_shape: "k \<le> 32 \<Longrightarrow> (2::nat) ^ 32 - 2 ^ k = push_bit k (mask (32 - k))"
  by (simp add: push_bit_eq_mult mask_eq_exp_minus_1 algebra_simps flip: power_add)

lemma and_netmask_dvd:
  assumes "k \<le> 32"
  shows "2 ^ k dvd and (a::nat) (2 ^ 32 - 2 ^ k)"
proof -
  have "and a (push_bit k (mask (32 - k))) = push_bit k (and (drop_bit k a) (mask (32 - k)))"
    by (rule bit_eqI) (auto simp add: bit_simps)
  then show ?thesis
    unfolding mask_shape [OF assms] by (simp add: push_bit_eq_mult)
qed

lemma and_netmask:
  assumes "a < 2 ^ 32" "k \<le> 32"
  shows "and (a::nat) (2 ^ 32 - 2 ^ k) = a - a mod 2 ^ k"
proof -
  have d: "drop_bit k a < 2 ^ (32 - k)"
    using assms by (simp add: drop_bit_eq_div less_mult_imp_div_less flip: power_add)
  have "and a (push_bit k (mask (32 - k))) = push_bit k (and (drop_bit k a) (mask (32 - k)))"
    by (rule bit_eqI) (auto simp add: bit_simps)
  also have "and (drop_bit k a) (mask (32 - k)) = drop_bit k a"
    using d by (simp add: take_bit_nat_eq_self flip: take_bit_eq_mask)
  also have "push_bit k (drop_bit k a) = a - a mod 2 ^ k"
    by (simp add: push_bit_eq_mult drop_bit_eq_div minus_mod_eq_div_mult)
  finally show ?thesis unfolding mask_shape [OF assms(2)] .
qed

lemma or_hostmask:
  assumes "(2::nat) ^ k dvd a"
  shows "or a (2 ^ k - 1) = a + (2 ^ k - 1)"
proof -
  from assms obtain b where a: "a = push_bit k b"
    by (auto simp add: push_bit_eq_mult dvd_def mult.commute)
  have "or (push_bit k b) (mask k) = push_bit k b + mask k"
    by (rule disjunctive_add [symmetric]) (auto simp add: bit_simps)
  then show ?thesis by (simp add: a mask_eq_exp_minus_1)
qed

lemma ip_network_Inr:
  "ip_network a p = Inr n \<longleftrightarrow>
     0 \<le> p \<and> p \<le> 32 \<and>
     n = \<lparr>network_address = and a (2 ^ 32 - 2 ^ (32 - nat p)), prefixlen = nat p\<rparr>"
  by (auto simp add: ip_network_def)

lemma ip_network_aligned:
  assumes "ip_network a p = Inr n"
  shows "prefixlen n \<le> 32" and "2 ^ (32 - prefixlen n) dvd network_address n"
  using assms and_netmask_dvd [of "32 - nat p" a] by (auto simp add: ip_network_Inr)

lemma ip_network_address:
  assumes "ip_network a p = Inr n" and "a < 2 ^ 32"
  shows "network_address n = a - a mod 2 ^ (32 - prefixlen n)"
  using assms and_netmask [of a "32 - nat p"] by (auto simp add: ip_network_Inr)

lemma broadcast_aligned:
  "2 ^ (32 - prefixlen n) dvd network_address n \<Longrightarrow>
   broadcast_address n = network_address n + (2 ^ (32 - prefixlen n) - 1)"
  using or_hostmask [of "32 - prefixlen n" "network_address n"]
  by (simp add: broadcast_address_def hostmask_def)

lemma valid_network_dvd: "valid_network P \<Longrightarrow> 2 ^ (32 - prefixlen P) dvd network_address P"
  by (simp add: valid_network_def mod_eq_0_iff_dvd)

lemma num_addresses_aligned:
  "2 ^ (32 - prefixlen n) dvd network_address n \<Longrightarrow> num_addresses n = 2 ^ (32 - prefixlen n)"
  by (simp add: num_addresses_def broadcast_aligned)

lemma length_hosts:
  assumes "2 ^ (32 - prefixlen n) dvd network_address n" and "prefixlen n \<le> 32"
  shows "length (hosts n) =
     (if prefixlen n = 31 then 2 else if prefixlen n = 32 then 1
      else 2 ^ (32 - prefixlen n) - 2)"
proof -
  have bc: "broadcast_address n = network_address n + (2 ^ (32 - prefixlen n) - 1)"
    using assms(1) by (rule broadcast_aligned)
  show ?thesis
    unfolding hosts_def bc by (auto simp add: diff_diff_eq)
qed

lemma address_add_Inr: "address_add a 1 = Inr b \<longleftrightarrow> b = a + 1 \<and> a + 1 < 2 ^ 32"
  by (auto simp add: address_add_def IPv4Address_def ALL_ONES_def)

lemma dvd_le_round_down:
  fixes a c d :: nat
  assumes "d dvd a" and "a \<le> c"
  shows "a \<le> c - c mod d"
proof -
  from assms(1) obtain m where a: "a = d * m" ..
  show ?thesis
  proof (cases "d = 0")
    case True
    with a assms(2) show ?thesis by simp
  next
    case False
    with assms(2) a have "m \<le> c div d"
      by (metis div_le_mono nonzero_mult_div_cancel_left)
    then have "d * m \<le> d * (c div d)" by simp
    then show ?thesis by (simp add: a minus_mod_eq_mult_div)
  qed
qed

section \<open>Facts about the loop\<close>

lemma make_row_fields [simp]:
  "Requested (make_row h n fh lh) = h"
  "Net_IP_prefix (make_row h n fh lh) = n"
  "Mask (make_row h n fh lh) = netmask n"
  "Broadcast (make_row h n fh lh) = broadcast_address n"
  by (simp_all add: make_row_def Let_def)

lemma body_Next:
  assumes "body P s h = Next s'"
  shows "\<exists>n fh lh. \<not> int (num_addresses P) < h + 2 \<and> \<not> new_prefix h < int (prefixlen P) \<and>
           ip_network (current_ip s) (new_prefix h) = Inr n \<and>
           broadcast_address n \<le> broadcast_address P \<and>
           address_add (broadcast_address n) 1 = Inr (current_ip s') \<and>
           results s' = results s @ [make_row h n fh lh]"
  using assms
  by (fastforce simp add: body_def Let_def split: if_splits sum.splits)

lemma body_Break:
  assumes "body P s h = Break e s'"
  shows "current_ip s' = current_ip s \<and>
         (results s' = results s \<or>
          (\<exists>n fh lh. \<not> int (num_addresses P) < h + 2 \<and> \<not> new_prefix h < int (prefixlen P) \<and>
             ip_network (current_ip s) (new_prefix h) = Inr n \<and>
             broadcast_address n \<le> broadcast_address P \<and>
             results s' = results s @ [make_row h n fh lh]))"
  using assms
  by (fastforce simp add: body_def Let_def split: if_splits sum.splits)

lemma body_space: "int (num_addresses P) < h + 2 \<Longrightarrow> body P s h = Break (Allocation_error_space h) s"
  by (simp add: body_def)

lemma body_prefix:
  "\<not> int (num_addresses P) < h + 2 \<Longrightarrow> new_prefix h < int (prefixlen P) \<Longrightarrow>
   body P s h = Return (Prefix_error h (new_prefix h) (prefixlen P))"
  by (simp add: body_def)

lemma body_boundary:
  "\<not> int (num_addresses P) < h + 2 \<Longrightarrow> \<not> new_prefix h < int (prefixlen P) \<Longrightarrow>
   ip_network (current_ip s) (new_prefix h) = Inr n \<Longrightarrow>
   broadcast_address P < broadcast_address n \<Longrightarrow>
   body P s h = Break (Allocation_error_boundary h n) s"
  by (simp add: body_def)

lemma loop_append:
  "loop P s (xs @ ys) = (case loop P s xs of Next s' \<Rightarrow> loop P s' ys | f \<Rightarrow> f)"
  by (induction xs arbitrary: s) (auto split: flow.splits)

lemma loop_stops:
  assumes "loop P s0 pre = Next s"
  shows "body P s h = Break e s' \<Longrightarrow> loop P s0 (pre @ h # post) = Break e s'"
    and "body P s h = Return e \<Longrightarrow> loop P s0 (pre @ h # post) = Return e"
  using assms by (simp_all add: loop_append)

lemma loop_invariant:
  assumes step: "\<And>s h s'. I s \<Longrightarrow> body P s h = Next s' \<Longrightarrow> I s'"
    and brk: "\<And>s h e s'. I s \<Longrightarrow> body P s h = Break e s' \<Longrightarrow> J s'"
    and weak: "\<And>s. I s \<Longrightarrow> J s"
    and init: "I s"
  shows "(loop P s hs = Next s' \<longrightarrow> I s') \<and> (loop P s hs = Break e s' \<longrightarrow> J s')"
  using init
proof (induction hs arbitrary: s)
  case Nil
  then show ?case by (auto dest: weak)
next
  case (Cons h hs)
  show ?case
  proof (cases "body P s h")
    case (Next t)
    with Cons.prems have "I t" by (auto dest: step)
    with Cons.IH [of t] Next show ?thesis by simp
  next
    case (Break e' t)
    with Cons.prems show ?thesis by (auto dest: brk)
  next
    case (Return e')
    then show ?thesis by simp
  qed
qed

lemma records_show_table:
  "records (show_table f) =
     (case f of Next s \<Rightarrow> results s | Break e s \<Rightarrow> results s | Return e \<Rightarrow> [])"
  by (simp add: records_def show_table_def split: flow.splits)

lemma records_allocate_loop:
  "records (allocate P hs) =
     (case loop P \<lparr>current_ip = network_address P, results = []\<rparr> (sort_reverse hs) of
        Next s \<Rightarrow> results s | Break e s \<Rightarrow> results s | Return e \<Rightarrow> [])"
proof (cases "sort_reverse hs = []")
  case True
  then show ?thesis by (simp add: allocate_def records_def)
next
  case False
  then show ?thesis by (simp add: allocate_def records_show_table)
qed

lemma records_allocate:
  assumes "r \<in> set (records (allocate P hs))"
  obtains s where "loop P \<lparr>current_ip = network_address P, results = []\<rparr> (sort_reverse hs) = Next s"
      and "r \<in> set (results s)"
  | e s where "loop P \<lparr>current_ip = network_address P, results = []\<rparr> (sort_reverse hs) = Break e s"
      and "r \<in> set (results s)"
proof -
  let ?f = "loop P \<lparr>current_ip = network_address P, results = []\<rparr> (sort_reverse hs)"
  from assms have r: "r \<in> set (records (show_table ?f))"
    by (auto simp add: allocate_def Let_def records_def split: if_splits)
  show thesis
  proof (cases ?f)
    case (Next s)
    with r that(1) show ?thesis by (simp add: records_show_table)
  next
    case (Break e s)
    with r that(2) show ?thesis by (simp add: records_show_table)
  next
    case (Return e)
    with r show ?thesis by (simp add: records_show_table)
  qed
qed

lemma sort_reverse_descending: "sorted_wrt (\<lambda>a b. b \<le> a) (sort_reverse hs)"
proof -
  have "sorted (map uminus (sort_key uminus hs))" by (rule sorted_sort_key)
  then show ?thesis by (simp add: sort_reverse_def sorted_map)
qed

lemma sort_reverse_mset: "mset xs = mset ys \<Longrightarrow> sort_reverse xs = sort_reverse ys"
  unfolding sort_reverse_def by (rule sort_key_eq_sort_key) (simp_all add: inj_on_def)

lemma loop_Next_requested:
  "loop P s hs = Next s' \<Longrightarrow> map Requested (results s') = map Requested (results s) @ hs"
proof (induction hs arbitrary: s)
  case Nil
  then show ?case by simp
next
  case (Cons x xs)
  from Cons.prems obtain t where b: "body P s x = Next t" and l: "loop P t xs = Next s'"
    by (auto split: flow.splits)
  from body_Next [OF b] have "map Requested (results t) = map Requested (results s) @ [x]"
    by auto
  with Cons.IH [OF l] show ?case by simp
qed

lemma loop_Break_requested:
  "loop P s hs = Break e s' \<Longrightarrow>
   \<exists>k. map Requested (results s') = map Requested (results s) @ take k hs"
proof (induction hs arbitrary: s)
  case Nil
  then show ?case by simp
next
  case (Cons x xs)
  show ?case
  proof (cases "body P s x")
    case (Next t)
    with Cons.prems have "loop P t xs = Break e s'" by simp
    from Cons.IH [OF this] obtain k where
      "map Requested (results s') = map Requested (results t) @ take k xs" ..
    moreover from body_Next [OF Next]
    have "map Requested (results t) = map Requested (results s) @ [x]" by auto
    ultimately have "map Requested (results s') = map Requested (results s) @ take (Suc k) (x # xs)"
      by simp
    then show ?thesis ..
  next
    case (Break e' t)
    with Cons.prems have t: "t = s'" by simp
    from body_Break [OF Break]
    have "map Requested (results t) = map Requested (results s) @ take 0 (x # xs) \<or>
          map Requested (results t) = map Requested (results s) @ take 1 (x # xs)"
      by auto
    with t show ?thesis by blast
  next
    case (Return e')
    with Cons.prems show ?thesis by simp
  qed
qed

lemma take_length_eq: "ys = take k hs \<Longrightarrow> ys = take (length ys) hs"
  by (simp add: min_def take_all)

lemma allocate_rows_descending:
  "map Requested (records (allocate P hs)) =
     take (length (records (allocate P hs))) (sort_reverse hs)"
proof -
  let ?s0 = "\<lparr>current_ip = network_address P, results = []\<rparr>"
  show ?thesis
  proof (cases "loop P ?s0 (sort_reverse hs)")
    case (Next s)
    from loop_Next_requested [OF Next] have "map Requested (results s) = sort_reverse hs" by simp
    then have "map Requested (results s) = take (length (results s)) (sort_reverse hs)"
      by (metis length_map take_all order_refl)
    with Next show ?thesis by (simp add: records_allocate_loop)
  next
    case (Break e s)
    from loop_Break_requested [OF Break] obtain k where
      "map Requested (results s) = take k (sort_reverse hs)" by auto
    then have "map Requested (results s) = take (length (map Requested (results s))) (sort_reverse hs)"
      by (rule take_length_eq)
    with Break show ?thesis by (simp add: records_allocate_loop)
  next
    case (Return e)
    then show ?thesis by (simp add: records_allocate_loop)
  qed
qed

lemma allocate_rows_complete:
  assumes "allocate P hs = Shown None t"
  shows "map Requested (records (allocate P hs)) = sort_reverse hs"
proof -
  let ?s0 = "\<lparr>current_ip = network_address P, results = []\<rparr>"
  from assms have ne: "sort_reverse hs \<noteq> []"
    by (auto simp add: allocate_def Let_def split: if_splits)
  with assms have "show_table (loop P ?s0 (sort_reverse hs)) = Shown None t"
    by (simp add: allocate_def)
  then obtain s where l: "loop P ?s0 (sort_reverse hs) = Next s"
    by (auto simp add: show_table_def split: flow.splits)
  from loop_Next_requested [OF l] have "map Requested (results s) = sort_reverse hs" by simp
  with l show ?thesis by (simp add: records_allocate_loop)
qed

text \<open>Unfolding a run on concrete input.\<close>

lemmas run_simps =
  allocate_def sort_reverse_def show_table_def records_def body_def Let_def
  new_prefix_def bits_needed_def bit_length_def bit_length_nat.simps
  ip_network_def broadcast_address_def hostmask_def netmask_def num_addresses_def
  address_add_def address_sub_def IPv4Address_def ALL_ONES_def make_row_def hosts_def
  default_network_def

lemmas parse_simps =
  skuska_def hosts_list_of_def strip_def isspace_def replace_comma_def splitlines_def
  islinebreak_def py_int_def int_isspace_def isdigit_def digit_value_def

section \<open>The sizing step\<close>

text \<open>
  Claim C1, as amended. For every host count \<open>h \<ge> 1\<close> the sizing step (lines 69 and 72)
  yields the greatest prefix length whose block holds \<open>h + 2\<close> addresses: a prefix length
  \<open>q \<le> 32\<close> satisfies \<open>2 ^ (32 - q) \<ge> h + 2\<close> exactly when it is at most the one computed,
  so the computed one is the unique greatest, that of the smallest block. When \<open>h + 2\<close> is
  the power \<open>2 ^ k\<close>, the prefix length is \<open>32 - k\<close>; it is 30 for 2 hosts, 29 for 6 and 24
  for 254.
\<close>

theorem new_prefix_greatest:
  assumes "1 \<le> h"
  shows "(\<forall>q\<le>32. (h + 2 \<le> 2 ^ nat (32 - q)) = (q \<le> new_prefix h)) \<and>
         (\<forall>k. h + 2 = 2 ^ k \<longrightarrow> new_prefix h = 32 - int k) \<and>
         new_prefix 2 = 30 \<and> new_prefix 6 = 29 \<and> new_prefix 254 = 24"
proof (intro conjI allI impI)
  fix q :: int
  assume "q \<le> 32"
  then show "(h + 2 \<le> 2 ^ nat (32 - q)) = (q \<le> new_prefix h)"
    using assms bits_needed_iff [of h "nat (32 - q)"] by (auto simp add: new_prefix_def)
next
  fix k :: nat
  assume k: "h + 2 = 2 ^ k"
  from assms have le: "bits_needed h \<le> k"
    by (simp add: bits_needed_iff k)
  have "\<not> bits_needed h \<le> k - 1"
  proof
    assume "bits_needed h \<le> k - 1"
    with assms have "h + 2 \<le> 2 ^ (k - 1)" by (simp add: bits_needed_iff)
    then have "(2::int) ^ k \<le> 2 ^ (k - 1)" unfolding k .
    then have "k \<le> k - 1" by (rule power_le_imp_le_exp [rotated]) simp
    then have "k = 0" by simp
    with k assms show False by simp
  qed
  with le have "bits_needed h = k" by simp
  then show "new_prefix h = 32 - int k" by (simp add: new_prefix_def)
next
  show "new_prefix 2 = 30"
    by (simp add: new_prefix_def bits_needed_def bit_length_def bit_length_nat.simps)
  show "new_prefix 6 = 29"
    by (simp add: new_prefix_def bits_needed_def bit_length_def bit_length_nat.simps)
  show "new_prefix 254 = 24"
    by (simp add: new_prefix_def bits_needed_def bit_length_def bit_length_nat.simps)
qed

text \<open>At 100 hosts the characterisation gives the prefix length 25.\<close>

theorem new_prefix_greatest_witness: "(1::int) \<le> 100 \<and> new_prefix 100 = 25"
proof -
  have h: "(1::int) \<le> 100" by simp
  from new_prefix_greatest [OF h]
  have q: "\<forall>q\<le>32. ((100::int) + 2 \<le> 2 ^ nat (32 - q)) = (q \<le> new_prefix 100)" by blast
  from q [rule_format, of 25] have "25 \<le> new_prefix 100" by simp
  moreover from q [rule_format, of 26] have "\<not> 26 \<le> new_prefix 100" by simp
  ultimately show ?thesis by simp
qed

text \<open>
  Claim C1 as written fails: the prefix length computed is not the least one with
  \<open>2 ^ (32 - p) \<ge> h + 2\<close>. For 2 hosts it is 30, and 29 satisfies the inequality as well.
\<close>

theorem new_prefix_not_least:
  "(2::int) + 2 \<le> 2 ^ nat (32 - 29) \<and> (29::int) < new_prefix 2"
  by (simp add: new_prefix_def bits_needed_def bit_length_def bit_length_nat.simps)

section \<open>Subnets stay inside the parent\<close>

lemma new_subnet_in_parent:
  assumes P: "valid_network P"
    and c: "network_address P \<le> c" "c < 2 ^ 32"
    and p: "\<not> new_prefix h < int (prefixlen P)"
    and n: "ip_network c (new_prefix h) = Inr n"
  shows "network_address P \<le> network_address n"
    and "network_address n \<le> broadcast_address n"
proof -
  from n have len: "prefixlen n = nat (new_prefix h)" "0 \<le> new_prefix h"
    by (auto simp add: ip_network_Inr)
  with p have "32 - prefixlen n \<le> 32 - prefixlen P" by simp
  then have "(2::nat) ^ (32 - prefixlen n) dvd 2 ^ (32 - prefixlen P)"
    by (rule le_imp_power_dvd)
  then have "2 ^ (32 - prefixlen n) dvd network_address P"
    using valid_network_dvd [OF P] by (rule dvd_trans)
  then have "network_address P \<le> c - c mod 2 ^ (32 - prefixlen n)"
    using c(1) by (rule dvd_le_round_down)
  then show "network_address P \<le> network_address n"
    by (simp add: ip_network_address [OF n c(2)])
  show "network_address n \<le> broadcast_address n"
    unfolding broadcast_aligned [OF ip_network_aligned(2) [OF n]] by (rule le_add1)
qed

lemma body_in_parent:
  assumes P: "valid_network P"
    and c: "network_address P \<le> current_ip s" "current_ip s < 2 ^ 32"
    and rs: "\<forall>r\<in>set (results s). in_parent P r"
  shows "body P s h = Next s' \<Longrightarrow>
           network_address P \<le> current_ip s' \<and> current_ip s' < 2 ^ 32 \<and>
           (\<forall>r\<in>set (results s'). in_parent P r)"
    and "body P s h = Break e s' \<Longrightarrow> \<forall>r\<in>set (results s'). in_parent P r"
proof -
  assume "body P s h = Next s'"
  from body_Next [OF this] obtain n fh lh where
    p: "\<not> new_prefix h < int (prefixlen P)"
    and n: "ip_network (current_ip s) (new_prefix h) = Inr n"
    and b: "broadcast_address n \<le> broadcast_address P"
    and a: "address_add (broadcast_address n) 1 = Inr (current_ip s')"
    and r: "results s' = results s @ [make_row h n fh lh]" by blast
  note sub = new_subnet_in_parent [OF P c p n]
  from a have "current_ip s' = broadcast_address n + 1" "current_ip s' < 2 ^ 32"
    by (auto simp add: address_add_Inr)
  with sub rs b r
  show "network_address P \<le> current_ip s' \<and> current_ip s' < 2 ^ 32 \<and>
           (\<forall>r\<in>set (results s'). in_parent P r)"
    by (auto simp add: in_parent_def)
next
  assume "body P s h = Break e s'"
  from body_Break [OF this] rs new_subnet_in_parent [OF P c]
  show "\<forall>r\<in>set (results s'). in_parent P r"
    by (auto simp add: in_parent_def)
qed

lemma loop_in_parent:
  assumes P: "valid_network P"
    and f: "loop P \<lparr>current_ip = network_address P, results = []\<rparr> hs = Next s' \<or>
            loop P \<lparr>current_ip = network_address P, results = []\<rparr> hs = Break e s'"
  shows "\<forall>r\<in>set (results s'). in_parent P r"
proof -
  let ?I = "\<lambda>s. network_address P \<le> current_ip s \<and> current_ip s < 2 ^ 32 \<and>
    (\<forall>r\<in>set (results s). in_parent P r)"
  let ?J = "\<lambda>s. \<forall>r\<in>set (results s). in_parent P r"
  have "(loop P \<lparr>current_ip = network_address P, results = []\<rparr> hs = Next s' \<longrightarrow> ?I s') \<and>
        (loop P \<lparr>current_ip = network_address P, results = []\<rparr> hs = Break e s' \<longrightarrow> ?J s')"
  proof (rule loop_invariant [where I = ?I and J = ?J])
    show "?I \<lparr>current_ip = network_address P, results = []\<rparr>"
      using P by (simp add: valid_network_def)
  qed (use body_in_parent [OF P] in blast)+
  with f show ?thesis by blast
qed

lemma rows_in_parent:
  assumes "valid_network P" and "r \<in> set (records (allocate P hs))"
  shows "in_parent P r"
  using assms(2)
proof (rule records_allocate)
  fix s
  assume "loop P \<lparr>current_ip = network_address P, results = []\<rparr> (sort_reverse hs) = Next s"
    and "r \<in> set (results s)"
  with loop_in_parent [OF assms(1), of "sort_reverse hs" s] show ?thesis by blast
next
  fix e s
  assume "loop P \<lparr>current_ip = network_address P, results = []\<rparr> (sort_reverse hs) = Break e s"
    and "r \<in> set (results s)"
  with loop_in_parent [OF assms(1), of "sort_reverse hs" s e] show ?thesis by blast
qed

text \<open>
  Claim C2. For every valid parent network and every host list, each row of the table
  has its subnet inside the parent: the subnet's network address is not below the parent's
  network address, its broadcast address is not above the parent's broadcast address, and
  the broadcast address shown is that of the subnet. This holds for every run, so in
  particular for the runs on positive host counts that end without an error.
\<close>

theorem subnets_within_parent:
  assumes "valid_network P" and "r \<in> set (records (allocate P hosts_list0))"
  shows "network_address P \<le> network_address (Net_IP_prefix r) \<and>
         network_address (Net_IP_prefix r) \<le> broadcast_address (Net_IP_prefix r) \<and>
         broadcast_address (Net_IP_prefix r) \<le> broadcast_address P \<and>
         Broadcast r = broadcast_address (Net_IP_prefix r)"
  using rows_in_parent [OF assms] by (auto simp add: in_parent_def)

text \<open>The row of 50 hosts in the run on 50, 100 and 20 hosts in \<^verbatim>\<open>192.168.1.0/24\<close>.\<close>

theorem subnets_within_parent_witness:
  "valid_network default_network \<and>
   \<lparr>Requested = 50, Net_IP_prefix = \<lparr>network_address = 3232235904, prefixlen = 26\<rparr>,
     Mask = 4294967232, First_host = Some 3232235905, Last_host = Some 3232235966,
     Broadcast = 3232235967, Usable_IP = 62\<rparr>
     \<in> set (records (allocate default_network [50, 100, 20])) \<and>
   network_address default_network \<le> 3232235904 \<and>
   broadcast_address \<lparr>network_address = 3232235904, prefixlen = 26\<rparr>
     \<le> broadcast_address default_network"
proof -
  let ?r = "\<lparr>Requested = 50, Net_IP_prefix = \<lparr>network_address = 3232235904, prefixlen = 26\<rparr>,
     Mask = 4294967232, First_host = Some 3232235905, Last_host = Some 3232235966,
     Broadcast = 3232235967, Usable_IP = 62\<rparr>"
  have v: "valid_network default_network"
    by (simp add: valid_network_def default_network_def)
  have m: "?r \<in> set (records (allocate default_network [50, 100, 20]))"
    by (simp add: run_simps)
  from subnets_within_parent [OF v m] v m show ?thesis by simp
qed

section \<open>The cursor is aligned\<close>

lemma new_subnet_at_cursor:
  assumes n: "ip_network c (new_prefix h) = Inr n"
    and c: "c < 2 ^ 32" and d: "2 ^ bits_needed h dvd c"
  shows "n = \<lparr>network_address = c, prefixlen = nat (new_prefix h)\<rparr>"
    and "32 - nat (new_prefix h) = bits_needed h"
    and "broadcast_address n = c + (2 ^ bits_needed h - 1)"
proof -
  from n have len: "prefixlen n = nat (32 - int (bits_needed h))" "bits_needed h \<le> 32"
    by (auto simp add: ip_network_Inr new_prefix_def)
  then have k: "32 - prefixlen n = bits_needed h" by simp
  from len show "32 - nat (new_prefix h) = bits_needed h"
    by (simp add: new_prefix_def)
  from d have "c mod 2 ^ bits_needed h = 0" by (simp add: mod_eq_0_iff_dvd)
  then have a: "network_address n = c"
    by (simp add: ip_network_address [OF n c] k)
  with n show "n = \<lparr>network_address = c, prefixlen = nat (new_prefix h)\<rparr>"
    by (auto simp add: ip_network_Inr)
  from d show "broadcast_address n = c + (2 ^ bits_needed h - 1)"
    using broadcast_aligned [of n] by (simp add: a k)
qed

lemma fits_all_initial:
  assumes "valid_network P"
  shows "fits_all P (network_address P) hs"
  unfolding fits_all_def
proof (intro ballI impI)
  fix h
  assume "passes_guards P h"
  then have "int (prefixlen P) \<le> 32 - int (bits_needed h)"
    by (simp add: passes_guards_def new_prefix_def)
  then have "bits_needed h \<le> 32 - prefixlen P" by simp
  then have "(2::nat) ^ bits_needed h dvd 2 ^ (32 - prefixlen P)"
    by (rule le_imp_power_dvd)
  then show "2 ^ bits_needed h dvd network_address P"
    using valid_network_dvd [OF assms] by (rule dvd_trans)
qed

lemma body_fits_all:
  assumes b: "body P s x = Next t"
    and c: "current_ip s < 2 ^ 32"
    and f: "fits_all P (current_ip s) (x # hs)"
    and lo: "\<forall>h\<in>set hs. -1 \<le> h" and desc: "\<forall>h\<in>set hs. h \<le> x"
  shows "fits_all P (current_ip t) hs" and "current_ip t < 2 ^ 32"
    and "current_ip t = current_ip s + 2 ^ bits_needed x"
proof -
  from body_Next [OF b] obtain n fh lh where
    g: "passes_guards P x"
    and n: "ip_network (current_ip s) (new_prefix x) = Inr n"
    and a: "address_add (broadcast_address n) 1 = Inr (current_ip t)"
    by (auto simp add: passes_guards_def)
  from f g have d: "2 ^ bits_needed x dvd current_ip s" by (simp add: fits_all_def)
  from a have t: "current_ip t = broadcast_address n + 1" and "current_ip t < 2 ^ 32"
    by (auto simp add: address_add_Inr)
  then show "current_ip t < 2 ^ 32" by simp
  from t show eq: "current_ip t = current_ip s + 2 ^ bits_needed x"
    by (simp add: new_subnet_at_cursor(3) [OF n c d])
  from d have dt: "2 ^ bits_needed x dvd current_ip t" by (simp add: eq)
  show "fits_all P (current_ip t) hs"
    unfolding fits_all_def
  proof (intro ballI impI)
    fix h
    assume "h \<in> set hs"
    with lo desc have "bits_needed h \<le> bits_needed x" by (simp add: bits_needed_mono)
    then have "(2::nat) ^ bits_needed h dvd 2 ^ bits_needed x" by (rule le_imp_power_dvd)
    then show "2 ^ bits_needed h dvd current_ip t" using dt by (rule dvd_trans)
  qed
qed

lemma loop_fits_all:
  assumes "loop P s xs = Next s'"
    and "current_ip s < 2 ^ 32"
    and "fits_all P (current_ip s) (xs @ ys)"
    and "\<forall>h\<in>set (xs @ ys). -1 \<le> h"
    and "sorted_wrt (\<lambda>a b. b \<le> a) (xs @ ys)"
  shows "fits_all P (current_ip s') ys \<and> current_ip s' < 2 ^ 32"
  using assms
proof (induction xs arbitrary: s)
  case Nil
  then show ?case by simp
next
  case (Cons x xs)
  from Cons.prems(1) obtain t where b: "body P s x = Next t" and l: "loop P t xs = Next s'"
    by (auto split: flow.splits)
  from Cons.prems(3) have f: "fits_all P (current_ip s) (x # (xs @ ys))" by simp
  from Cons.prems(4) have lo: "\<forall>h\<in>set (xs @ ys). -1 \<le> h" by simp
  from Cons.prems(5) have desc: "\<forall>h\<in>set (xs @ ys). h \<le> x"
    and sorted: "sorted_wrt (\<lambda>a b. b \<le> a) (xs @ ys)" by simp_all
  note step = body_fits_all [OF b Cons.prems(2) f lo desc]
  show ?case by (rule Cons.IH [OF l step(2) step(1) lo sorted])
qed

text \<open>
  Claim C9. For a valid parent network and positive host counts, whenever the loop, after
  the sorted requests \<open>pre\<close>, takes a request \<open>h\<close> past the two guards to line 84, the
  cursor is a multiple of the block size of the candidate subnet. The non-strict construction
  then clears no host bit: the subnet's network address is the cursor, and the subnet is
  the one block from the cursor to the cursor plus the block size minus one.
\<close>

theorem cursor_aligned:
  assumes "valid_network P"
    and "\<forall>h\<in>set hosts_list0. 1 \<le> h"
    and "sort_reverse hosts_list0 = pre @ h # post"
    and "loop P \<lparr>current_ip = network_address P, results = []\<rparr> pre = Next s"
    and "\<not> int (num_addresses P) < h + 2"
    and "\<not> new_prefix h < int (prefixlen P)"
  shows "current_ip s mod 2 ^ (32 - nat (new_prefix h)) = 0 \<and>
         ip_network (current_ip s) (new_prefix h) =
           Inr \<lparr>network_address = current_ip s, prefixlen = nat (new_prefix h)\<rparr> \<and>
         broadcast_address \<lparr>network_address = current_ip s, prefixlen = nat (new_prefix h)\<rparr> =
           current_ip s + (2 ^ (32 - nat (new_prefix h)) - 1)"
proof -
  let ?s0 = "\<lparr>current_ip = network_address P, results = []\<rparr>"
  have "set (sort_reverse hosts_list0) = set hosts_list0"
    by (simp add: sort_reverse_def)
  with assms(2,3) have lo: "\<forall>x\<in>set (pre @ h # post). -1 \<le> x" by fastforce
  have desc: "sorted_wrt (\<lambda>a b. b \<le> a) (pre @ h # post)"
    using sort_reverse_descending [of hosts_list0] by (simp add: assms(3))
  have "fits_all P (current_ip s) (h # post) \<and> current_ip s < 2 ^ 32"
  proof (rule loop_fits_all [OF assms(4) _ _ lo desc])
    show "current_ip ?s0 < 2 ^ 32" using assms(1) by (simp add: valid_network_def)
    show "fits_all P (current_ip ?s0) (pre @ h # post)"
      using fits_all_initial [OF assms(1)] by simp
  qed
  with assms(5,6) have c: "current_ip s < 2 ^ 32" and d: "2 ^ bits_needed h dvd current_ip s"
    by (simp_all add: fits_all_def passes_guards_def)
  from assms(6) have "0 \<le> new_prefix h" by simp
  moreover have "new_prefix h \<le> 32" by (simp add: new_prefix_def)
  ultimately obtain n where n: "ip_network (current_ip s) (new_prefix h) = Inr n"
    by (auto simp add: ip_network_def)
  note at = new_subnet_at_cursor [OF n c d]
  from d have "current_ip s mod 2 ^ (32 - nat (new_prefix h)) = 0"
    by (simp add: at(2) mod_eq_0_iff_dvd)
  moreover from n have "ip_network (current_ip s) (new_prefix h) =
      Inr \<lparr>network_address = current_ip s, prefixlen = nat (new_prefix h)\<rparr>"
    by (simp add: at(1) [symmetric])
  moreover from at(3) have
    "broadcast_address \<lparr>network_address = current_ip s, prefixlen = nat (new_prefix h)\<rparr> =
       current_ip s + (2 ^ (32 - nat (new_prefix h)) - 1)"
    by (simp only: at(1) [symmetric] at(2))
  ultimately show ?thesis by blast
qed

text \<open>The second request of the run on 50, 100 and 20 hosts in \<^verbatim>\<open>192.168.1.0/24\<close>.\<close>

theorem cursor_aligned_witness:
  "valid_network default_network \<and> (1::int) \<le> 50 \<and> (1::int) \<le> 100 \<and> (1::int) \<le> 20 \<and>
   sort_reverse [50, 100, 20] = [100] @ 50 # [20] \<and>
   loop default_network \<lparr>current_ip = network_address default_network, results = []\<rparr> [100] =
     Next \<lparr>current_ip = 3232235904,
           results =
             [\<lparr>Requested = 100, Net_IP_prefix = \<lparr>network_address = 3232235776, prefixlen = 25\<rparr>,
               Mask = 4294967168, First_host = Some 3232235777, Last_host = Some 3232235902,
               Broadcast = 3232235903, Usable_IP = 126\<rparr>]\<rparr> \<and>
   \<not> int (num_addresses default_network) < 50 + 2 \<and>
   \<not> new_prefix 50 < int (prefixlen default_network) \<and>
   (3232235904 :: nat) mod 2 ^ (32 - nat (new_prefix 50)) = 0 \<and>
   ip_network 3232235904 (new_prefix 50) =
     Inr \<lparr>network_address = 3232235904, prefixlen = nat (new_prefix 50)\<rparr>"
proof -
  let ?s = "\<lparr>current_ip = 3232235904,
           results =
             [\<lparr>Requested = 100, Net_IP_prefix = \<lparr>network_address = 3232235776, prefixlen = 25\<rparr>,
               Mask = 4294967168, First_host = Some 3232235777, Last_host = Some 3232235902,
               Broadcast = 3232235903, Usable_IP = 126\<rparr>]\<rparr>"
  have v: "valid_network default_network"
    by (simp add: valid_network_def default_network_def)
  have p: "\<forall>h\<in>set [50, 100, 20 :: int]. 1 \<le> h" by simp
  have s: "sort_reverse [50, 100, 20] = [100] @ 50 # [20]" by (simp add: sort_reverse_def)
  have l: "loop default_network \<lparr>current_ip = network_address default_network, results = []\<rparr> [100] =
     Next ?s" by (simp add: run_simps)
  have g1: "\<not> int (num_addresses default_network) < 50 + 2" by (simp add: run_simps)
  have g2: "\<not> new_prefix 50 < int (prefixlen default_network)" by (simp add: run_simps)
  from cursor_aligned [OF v p s l g1 g2] v p s l g1 g2 show ?thesis by simp
qed

section \<open>Packing\<close>

text \<open>
  With positive host counts the rows are packed from the parent's network address, each
  subnet starting right after the one before, and no two of them overlap.
\<close>

lemma packed_from_snoc:
  "packed_from c (rs @ [r]) \<longleftrightarrow>
     packed_from c rs \<and> network_address (Net_IP_prefix r) = cursor_after c rs"
  by (induction rs arbitrary: c) auto

lemma cursor_after_snoc: "cursor_after c (rs @ [r]) = Broadcast r + 1"
  by (induction rs arbitrary: c) auto

lemma loop_packed:
  assumes "loop P s xs = Next s' \<or> loop P s xs = Break e s'"
    and "current_ip s < 2 ^ 32"
    and "fits_all P (current_ip s) xs"
    and "\<forall>h\<in>set xs. -1 \<le> h"
    and "sorted_wrt (\<lambda>a b. b \<le> a) xs"
    and "packed_from a (results s)"
    and "current_ip s = cursor_after a (results s)"
  shows "packed_from a (results s')"
  using assms
proof (induction xs arbitrary: s)
  case Nil
  then show ?case by simp
next
  case (Cons x xs)
  from Cons.prems(4) have lo: "\<forall>h\<in>set xs. -1 \<le> h" by simp
  from Cons.prems(5) have desc: "\<forall>h\<in>set xs. h \<le> x"
    and sorted: "sorted_wrt (\<lambda>a b. b \<le> a) xs" by simp_all
  show ?case
  proof (cases "body P s x")
    case (Next t)
    with Cons.prems(1) have l: "loop P t xs = Next s' \<or> loop P t xs = Break e s'" by simp
    note step = body_fits_all [OF Next Cons.prems(2,3) lo desc]
    from body_Next [OF Next] obtain n fh lh where
      g: "passes_guards P x"
      and n: "ip_network (current_ip s) (new_prefix x) = Inr n"
      and r: "results t = results s @ [make_row x n fh lh]"
      by (auto simp add: passes_guards_def)
    from Cons.prems(3) g have d: "2 ^ bits_needed x dvd current_ip s"
      by (simp add: fits_all_def)
    note at = new_subnet_at_cursor [OF n Cons.prems(2) d]
    have "network_address n = current_ip s" by (subst at(1)) simp
    with Cons.prems(6,7) have p: "packed_from a (results t)"
      by (simp add: r packed_from_snoc)
    have c: "current_ip t = cursor_after a (results t)"
      by (simp add: r cursor_after_snoc step(3) at(3))
    show ?thesis by (rule Cons.IH [OF l step(2) step(1) lo sorted p c])
  next
    case (Break e' t)
    with Cons.prems(1) have t: "t = s'" by simp
    from body_Break [OF Break] have
      "results t = results s \<or>
       (\<exists>n fh lh. passes_guards P x \<and> ip_network (current_ip s) (new_prefix x) = Inr n \<and>
          results t = results s @ [make_row x n fh lh])"
      by (auto simp add: passes_guards_def)
    then show ?thesis
    proof
      assume "results t = results s"
      with Cons.prems(6) t show ?thesis by simp
    next
      assume "\<exists>n fh lh. passes_guards P x \<and> ip_network (current_ip s) (new_prefix x) = Inr n \<and>
          results t = results s @ [make_row x n fh lh]"
      then obtain n fh lh where g: "passes_guards P x"
        and n: "ip_network (current_ip s) (new_prefix x) = Inr n"
        and r: "results t = results s @ [make_row x n fh lh]" by blast
      from Cons.prems(3) g have d: "2 ^ bits_needed x dvd current_ip s"
        by (simp add: fits_all_def)
      have "network_address n = current_ip s"
        by (subst new_subnet_at_cursor(1) [OF n Cons.prems(2) d]) simp
      with Cons.prems(6,7) have "packed_from a (results t)"
        by (simp add: r packed_from_snoc)
      with t show ?thesis by simp
    qed
  next
    case (Return e')
    with Cons.prems(1) show ?thesis by simp
  qed
qed

lemma packed_from_lower:
  assumes "packed_from c rs" and "\<forall>r\<in>set rs. network_address (Net_IP_prefix r) \<le> Broadcast r"
  shows "\<forall>r\<in>set rs. c \<le> network_address (Net_IP_prefix r)"
  using assms
proof (induction rs arbitrary: c)
  case Nil
  then show ?case by simp
next
  case (Cons r rs)
  from Cons.prems have "\<forall>q\<in>set rs. Broadcast r + 1 \<le> network_address (Net_IP_prefix q)"
    by (intro Cons.IH) simp_all
  with Cons.prems show ?case by auto
qed

lemma packed_from_disjoint:
  assumes "packed_from c rs" and "\<forall>r\<in>set rs. network_address (Net_IP_prefix r) \<le> Broadcast r"
  shows "sorted_wrt (\<lambda>r q. Broadcast r < network_address (Net_IP_prefix q)) rs"
  using assms
proof (induction rs arbitrary: c)
  case Nil
  then show ?case by simp
next
  case (Cons r rs)
  from Cons.prems have "\<forall>q\<in>set rs. Broadcast r + 1 \<le> network_address (Net_IP_prefix q)"
    by (intro packed_from_lower) simp_all
  moreover from Cons.prems
  have "sorted_wrt (\<lambda>r q. Broadcast r < network_address (Net_IP_prefix q)) rs"
    by (intro Cons.IH [of "Broadcast r + 1"]) simp_all
  ultimately show ?case by auto
qed

lemma positive_rows_packed:
  assumes P: "valid_network P" and pos: "\<forall>h\<in>set hosts_list0. 1 \<le> h"
  shows "packed_from (network_address P) (records (allocate P hosts_list0)) \<and>
         sorted_wrt (\<lambda>r q. Broadcast r < network_address (Net_IP_prefix q))
           (records (allocate P hosts_list0))"
proof -
  let ?s0 = "\<lparr>current_ip = network_address P, results = []\<rparr>"
  let ?hs = "sort_reverse hosts_list0"
  have "set ?hs = set hosts_list0" by (simp add: sort_reverse_def)
  with pos have lo: "\<forall>h\<in>set ?hs. -1 \<le> h" by fastforce
  have c0: "current_ip ?s0 < 2 ^ 32" using P by (simp add: valid_network_def)
  have f0: "fits_all P (current_ip ?s0) ?hs" using fits_all_initial [OF P] by simp
  have p0: "packed_from (network_address P) (results ?s0)"
    and k0: "current_ip ?s0 = cursor_after (network_address P) (results ?s0)" by simp_all
  have packed: "packed_from (network_address P) (results s)"
    if "loop P ?s0 ?hs = Next s \<or> loop P ?s0 ?hs = Break e s" for s e
    by (rule loop_packed [OF that c0 f0 lo sort_reverse_descending p0 k0])
  have 1: "packed_from (network_address P) (records (allocate P hosts_list0))"
  proof (cases "loop P ?s0 ?hs")
    case (Next s)
    with packed [of s] show ?thesis by (simp add: records_allocate_loop)
  next
    case (Break e s)
    with packed [of s e] show ?thesis by (simp add: records_allocate_loop)
  next
    case (Return e)
    then show ?thesis by (simp add: records_allocate_loop)
  qed
  have "\<forall>r\<in>set (records (allocate P hosts_list0)).
      network_address (Net_IP_prefix r) \<le> Broadcast r"
  proof
    fix r
    assume "r \<in> set (records (allocate P hosts_list0))"
    from rows_in_parent [OF P this]
    show "network_address (Net_IP_prefix r) \<le> Broadcast r" by (simp add: in_parent_def)
  qed
  with 1 show ?thesis by (auto intro: packed_from_disjoint)
qed

text \<open>
  Claim C3 fails on a host list with a negative entry, which line 40 accepts. The text
  \<^verbatim>\<open>5,-100\<close> runs without any message; \<open>-100\<close> is sized as \<open>(-99).bit_length() = 7\<close> bits, the
  cursor \<^verbatim>\<open>192.168.1.8\<close> is not a multiple of 128, and the non-strict construction moves the
  second subnet back to \<^verbatim>\<open>192.168.1.0/25\<close>, over the first subnet \<^verbatim>\<open>192.168.1.0/29\<close>.
\<close>

theorem negative_hosts_overlap:
  "skuska default_network ''5,-100'' =
     Shown None
       (Rows [\<lparr>Requested = 5, Net_IP_prefix = \<lparr>network_address = 3232235776, prefixlen = 29\<rparr>,
               Mask = 4294967288, First_host = Some 3232235777, Last_host = Some 3232235782,
               Broadcast = 3232235783, Usable_IP = 6\<rparr>,
              \<lparr>Requested = -100, Net_IP_prefix = \<lparr>network_address = 3232235776, prefixlen = 25\<rparr>,
               Mask = 4294967168, First_host = Some 3232235777, Last_host = Some 3232235902,
               Broadcast = 3232235903, Usable_IP = 126\<rparr>])"
  by (simp add: parse_simps run_simps)

section \<open>The guards\<close>

text \<open>
  Claim C4, as amended. The loop body stops with the message of line 64 exactly when the
  request plus 2 exceeds the number of addresses of the whole parent network, whatever the
  cursor is.
\<close>

theorem space_guard_total_size:
  "(\<exists>h' s'. body P s h = Break (Allocation_error_space h') s') = (int (num_addresses P) < h + 2) \<and>
   (body P s h = Break (Allocation_error_space h) s) = (int (num_addresses P) < h + 2)"
  by (auto simp add: body_def Let_def split: sum.splits)

text \<open>
  Claim C4 as written fails. After two requests of 100 hosts in \<^verbatim>\<open>192.168.1.0/24\<close> no address
  remains from the cursor on, fewer than \<open>100 + 2\<close>, and a third request of 100 hosts does not
  stop at line 64 but at the boundary check of line 87.
\<close>

theorem space_guard_ignores_cursor:
  "loop default_network \<lparr>current_ip = network_address default_network, results = []\<rparr> [100, 100] =
     Next \<lparr>current_ip = 3232236032,
           results =
             [\<lparr>Requested = 100, Net_IP_prefix = \<lparr>network_address = 3232235776, prefixlen = 25\<rparr>,
               Mask = 4294967168, First_host = Some 3232235777, Last_host = Some 3232235902,
               Broadcast = 3232235903, Usable_IP = 126\<rparr>,
              \<lparr>Requested = 100, Net_IP_prefix = \<lparr>network_address = 3232235904, prefixlen = 25\<rparr>,
               Mask = 4294967168, First_host = Some 3232235905, Last_host = Some 3232236030,
               Broadcast = 3232236031, Usable_IP = 126\<rparr>]\<rparr> \<and>
   int (broadcast_address default_network + 1 - 3232236032) < 100 + 2 \<and>
   loop default_network \<lparr>current_ip = network_address default_network, results = []\<rparr>
       [100, 100, 100] =
     Break (Allocation_error_boundary 100 \<lparr>network_address = 3232236032, prefixlen = 25\<rparr>)
       \<lparr>current_ip = 3232236032,
         results =
           [\<lparr>Requested = 100, Net_IP_prefix = \<lparr>network_address = 3232235776, prefixlen = 25\<rparr>,
             Mask = 4294967168, First_host = Some 3232235777, Last_host = Some 3232235902,
             Broadcast = 3232235903, Usable_IP = 126\<rparr>,
            \<lparr>Requested = 100, Net_IP_prefix = \<lparr>network_address = 3232235904, prefixlen = 25\<rparr>,
             Mask = 4294967168, First_host = Some 3232235905, Last_host = Some 3232236030,
             Broadcast = 3232236031, Usable_IP = 126\<rparr>]\<rparr>"
  by (simp add: run_simps)

text \<open>
  The space guard compares with a constant, so in a descending list it can stop only the
  first request; the boundary guard cannot stop the first request, which starts at the
  parent's network address with a block no larger than the parent.
\<close>

lemma space_guard_first:
  assumes sorted: "sorted_wrt (\<lambda>a b. b \<le> a) (pre @ h # post)"
    and l: "loop P s0 pre = Next s"
    and g: "int (num_addresses P) < h + 2"
  shows "pre = []"
proof (cases pre)
  case Nil
  then show ?thesis .
next
  case (Cons x xs)
  with l obtain t where "body P s0 x = Next t" by (auto split: flow.splits)
  from body_Next [OF this] have "\<not> int (num_addresses P) < x + 2" by blast
  moreover from sorted Cons have "h \<le> x" by simp
  ultimately show ?thesis using g by simp
qed

lemma boundary_guard_not_first:
  assumes P: "valid_network P"
    and g: "passes_guards P h"
    and n: "ip_network (network_address P) (new_prefix h) = Inr n"
  shows "broadcast_address n \<le> broadcast_address P"
proof -
  from P have c: "network_address P < 2 ^ 32" by (simp add: valid_network_def)
  from fits_all_initial [OF P, of "[h]"] g have d: "2 ^ bits_needed h dvd network_address P"
    by (simp add: fits_all_def)
  note at = new_subnet_at_cursor [OF n c d]
  from g have "int (prefixlen P) \<le> 32 - int (bits_needed h)"
    by (simp add: passes_guards_def new_prefix_def)
  then have "bits_needed h \<le> 32 - prefixlen P" by simp
  then have "(2::nat) ^ bits_needed h \<le> 2 ^ (32 - prefixlen P)"
    by (rule power_increasing) simp
  then have "(2::nat) ^ bits_needed h - 1 \<le> 2 ^ (32 - prefixlen P) - 1"
    by (rule diff_le_mono)
  then have "network_address P + ((2::nat) ^ bits_needed h - 1) \<le>
      network_address P + (2 ^ (32 - prefixlen P) - 1)"
    by (rule add_left_mono)
  then show ?thesis
    unfolding at(3) broadcast_aligned [OF valid_network_dvd [OF P]] .
qed

text \<open>
  Claim C5, as amended. For a valid parent network, let the sorted host list be \<open>pre\<close>, then
  \<open>h\<close>, then \<open>post\<close>, and let the loop pass \<open>pre\<close> and reach the state \<open>s\<close>. When \<open>h\<close> fails
  the space guard of line 63, no row has been made and the table is the one row of \<^verbatim>\<open>"N/A"\<close>;
  when \<open>h\<close> fails the prefix guard of line 75, the function returns without a table: in both
  cases the result delivers no row. When \<open>h\<close> fails the boundary guard of line 87, the loop
  stops, no request of \<open>post\<close> is processed, and the table shown after the message holds
  exactly the rows made before the failure, those of \<open>s\<close>, of which there is at least one.
\<close>

theorem guard_failure_outcome:
  assumes "valid_network P"
    and "sort_reverse hosts_list0 = pre @ h # post"
    and "loop P \<lparr>current_ip = network_address P, results = []\<rparr> pre = Next s"
  shows "(int (num_addresses P) < h + 2 \<longrightarrow>
            allocate P hosts_list0 = Shown (Some (Allocation_error_space h)) Error_row \<and>
            records (allocate P hosts_list0) = []) \<and>
         (\<not> int (num_addresses P) < h + 2 \<and> new_prefix h < int (prefixlen P) \<longrightarrow>
            allocate P hosts_list0 = Returned (Prefix_error h (new_prefix h) (prefixlen P)) \<and>
            records (allocate P hosts_list0) = []) \<and>
         (\<forall>n. \<not> int (num_addresses P) < h + 2 \<and> \<not> new_prefix h < int (prefixlen P) \<and>
              ip_network (current_ip s) (new_prefix h) = Inr n \<and>
              broadcast_address P < broadcast_address n \<longrightarrow>
            allocate P hosts_list0 = Shown (Some (Allocation_error_boundary h n)) (Rows (results s)) \<and>
            records (allocate P hosts_list0) = results s \<and> results s \<noteq> [])"
proof -
  let ?s0 = "\<lparr>current_ip = network_address P, results = []\<rparr>"
  have a: "allocate P hosts_list0 = show_table (loop P ?s0 (pre @ h # post))"
    by (simp add: allocate_def assms(2))
  have desc: "sorted_wrt (\<lambda>a b. b \<le> a) (pre @ h # post)"
    using sort_reverse_descending [of hosts_list0] by (simp add: assms(2))
  note stop = loop_stops [OF assms(3)]
  show ?thesis
  proof (intro conjI impI allI)
    assume g: "int (num_addresses P) < h + 2"
    then have l: "loop P ?s0 (pre @ h # post) = Break (Allocation_error_space h) s"
      by (intro stop(1) body_space)
    from space_guard_first [OF desc assms(3) g] assms(3) have "results s = []" by auto
    with l show "allocate P hosts_list0 = Shown (Some (Allocation_error_space h)) Error_row"
      by (simp add: a show_table_def)
    then show "records (allocate P hosts_list0) = []" by (simp add: records_def)
  next
    assume "\<not> int (num_addresses P) < h + 2 \<and> new_prefix h < int (prefixlen P)"
    then have l: "loop P ?s0 (pre @ h # post) = Return (Prefix_error h (new_prefix h) (prefixlen P))"
      by (intro stop(2) body_prefix) simp_all
    show "allocate P hosts_list0 = Returned (Prefix_error h (new_prefix h) (prefixlen P))"
      by (simp add: a l show_table_def)
    show "records (allocate P hosts_list0) = []"
      by (simp add: a l records_show_table)
  next
    fix n
    assume g: "\<not> int (num_addresses P) < h + 2 \<and> \<not> new_prefix h < int (prefixlen P) \<and>
        ip_network (current_ip s) (new_prefix h) = Inr n \<and>
        broadcast_address P < broadcast_address n"
    then have l: "loop P ?s0 (pre @ h # post) = Break (Allocation_error_boundary h n) s"
      by (intro stop(1) body_boundary) simp_all
    have "pre \<noteq> []"
    proof
      assume "pre = []"
      with assms(3) have "s = ?s0" by simp
      with g have "ip_network (network_address P) (new_prefix h) = Inr n"
        and "passes_guards P h" by (simp_all add: passes_guards_def)
      from boundary_guard_not_first [OF assms(1) this(2,1)] g show False by simp
    qed
    moreover from loop_Next_requested [OF assms(3)] have "map Requested (results s) = pre"
      by simp
    ultimately show ne: "results s \<noteq> []" by auto
    with l show "allocate P hosts_list0 =
        Shown (Some (Allocation_error_boundary h n)) (Rows (results s))"
      by (simp add: a show_table_def)
    then show "records (allocate P hosts_list0) = results s" by (simp add: records_def)
  qed
qed

text \<open>
  The three guards in \<^verbatim>\<open>192.168.1.0/24\<close>: 300 hosts for the space guard, \<open>-300\<close> for the prefix
  guard, and 50 hosts after 200 for the boundary guard.
\<close>

theorem guard_failure_outcome_witness:
  "valid_network default_network \<and>
   sort_reverse [300] = [] @ 300 # [] \<and>
   int (num_addresses default_network) < 300 + 2 \<and>
   allocate default_network [300] = Shown (Some (Allocation_error_space 300)) Error_row \<and>
   sort_reverse [- 300] = [] @ (- 300) # [] \<and>
   \<not> int (num_addresses default_network) < - 300 + 2 \<and>
   new_prefix (- 300) < int (prefixlen default_network) \<and>
   allocate default_network [- 300] = Returned (Prefix_error (- 300) 23 24) \<and>
   sort_reverse [50, 200] = [200] @ 50 # [] \<and>
   loop default_network \<lparr>current_ip = network_address default_network, results = []\<rparr> [200] =
     Next \<lparr>current_ip = 3232236032,
           results =
             [\<lparr>Requested = 200, Net_IP_prefix = \<lparr>network_address = 3232235776, prefixlen = 24\<rparr>,
               Mask = 4294967040, First_host = Some 3232235777, Last_host = Some 3232236030,
               Broadcast = 3232236031, Usable_IP = 254\<rparr>]\<rparr> \<and>
   \<not> int (num_addresses default_network) < 50 + 2 \<and>
   \<not> new_prefix 50 < int (prefixlen default_network) \<and>
   ip_network 3232236032 (new_prefix 50) = Inr \<lparr>network_address = 3232236032, prefixlen = 26\<rparr> \<and>
   broadcast_address default_network
     < broadcast_address \<lparr>network_address = 3232236032, prefixlen = 26\<rparr> \<and>
   records (allocate default_network [50, 200]) =
     [\<lparr>Requested = 200, Net_IP_prefix = \<lparr>network_address = 3232235776, prefixlen = 24\<rparr>,
       Mask = 4294967040, First_host = Some 3232235777, Last_host = Some 3232236030,
       Broadcast = 3232236031, Usable_IP = 254\<rparr>]"
proof -
  let ?s0 = "\<lparr>current_ip = network_address default_network, results = []\<rparr>"
  let ?s1 = "\<lparr>current_ip = 3232236032,
           results =
             [\<lparr>Requested = 200, Net_IP_prefix = \<lparr>network_address = 3232235776, prefixlen = 24\<rparr>,
               Mask = 4294967040, First_host = Some 3232235777, Last_host = Some 3232236030,
               Broadcast = 3232236031, Usable_IP = 254\<rparr>]\<rparr>"
  have v: "valid_network default_network"
    by (simp add: valid_network_def default_network_def)
  have e: "loop default_network ?s0 [] = Next ?s0" by simp
  have a1: "sort_reverse [300] = [] @ 300 # []" by (simp add: sort_reverse_def)
  have a2: "int (num_addresses default_network) < 300 + 2" by (simp add: run_simps)
  have b1: "sort_reverse [- 300] = [] @ (- 300) # []" by (simp add: sort_reverse_def)
  have b2: "\<not> int (num_addresses default_network) < - 300 + 2" by (simp add: run_simps)
  have b3: "new_prefix (- 300) < int (prefixlen default_network)" by (simp add: run_simps)
  have b4: "new_prefix (- 300) = 23" "prefixlen default_network = 24" by (simp_all add: run_simps)
  have c1: "sort_reverse [50, 200] = [200] @ 50 # []" by (simp add: sort_reverse_def)
  have c2: "loop default_network ?s0 [200] = Next ?s1" by (simp add: run_simps)
  have c3: "\<not> int (num_addresses default_network) < 50 + 2" by (simp add: run_simps)
  have c4: "\<not> new_prefix 50 < int (prefixlen default_network)" by (simp add: run_simps)
  have c5: "ip_network 3232236032 (new_prefix 50) = Inr \<lparr>network_address = 3232236032, prefixlen = 26\<rparr>"
    by (simp add: run_simps)
  have c6: "broadcast_address default_network
     < broadcast_address \<lparr>network_address = 3232236032, prefixlen = 26\<rparr>"
    by (simp add: run_simps)
  from guard_failure_outcome [OF v a1 e] a2
  have a: "allocate default_network [300] = Shown (Some (Allocation_error_space 300)) Error_row"
    by simp
  from guard_failure_outcome [OF v b1 e] b2 b3
  have b: "allocate default_network [- 300] = Returned (Prefix_error (- 300) 23 24)"
    by (simp add: b4)
  from guard_failure_outcome [OF v c1 c2] c3 c4 c5 c6
  have c: "records (allocate default_network [50, 200]) = results ?s1"
    by (simp add: records_def)
  from v a b c a1 a2 b1 b2 b3 c1 c2 c3 c4 c5 c6 show ?thesis by simp
qed

text \<open>
  Claim C5 as written fails. On the text \<^verbatim>\<open>50,200\<close> the request of 50 hosts fails the boundary
  guard, and the table shown after the message still holds the row of 200 hosts.
\<close>

theorem partial_table_shown:
  "skuska default_network ''50,200'' =
     Shown (Some (Allocation_error_boundary 50 \<lparr>network_address = 3232236032, prefixlen = 26\<rparr>))
       (Rows [\<lparr>Requested = 200, Net_IP_prefix = \<lparr>network_address = 3232235776, prefixlen = 24\<rparr>,
               Mask = 4294967040, First_host = Some 3232235777, Last_host = Some 3232236030,
               Broadcast = 3232236031, Usable_IP = 254\<rparr>])"
  by (simp add: parse_simps run_simps)

section \<open>The host list\<close>

text \<open>
  Claim C6 fails on the tokens \<^verbatim>\<open>0\<close> and \<^verbatim>\<open>-5\<close>. Line 40 converts them with \<^verbatim>\<open>int\<close> and checks
  no sign, although the message of line 46 asks for positive integers; the run on \<^verbatim>\<open>-5\<close>
  shows no message and allocates the subnet \<^verbatim>\<open>192.168.1.0/29\<close>.
\<close>

theorem nonpositive_hosts_accepted:
  "hosts_list_of ''0'' = Inr [0] \<and> hosts_list_of ''-5'' = Inr [-5] \<and>
   skuska default_network ''-5'' =
     Shown None
       (Rows [\<lparr>Requested = -5, Net_IP_prefix = \<lparr>network_address = 3232235776, prefixlen = 29\<rparr>,
               Mask = 4294967288, First_host = Some 3232235777, Last_host = Some 3232235782,
               Broadcast = 3232235783, Usable_IP = 6\<rparr>])"
  by (simp add: parse_simps run_simps)

section \<open>Usable hosts\<close>

text \<open>
  Every row shows both host bounds and at least one usable host, so the branch of line 101
  is never taken; for a prefix length up to 30 the count is the size of the subnet minus 2.
\<close>

lemma make_row_counted:
  assumes n: "ip_network c p = Inr n"
  shows "counted (make_row h n fh lh)"
proof -
  note al = ip_network_aligned [OF n]
  note len = length_hosts [OF al(2) al(1)]
  have two: "prefixlen n \<le> 30 \<Longrightarrow> (4::nat) \<le> 2 ^ (32 - prefixlen n)"
    using power_increasing [of 2 "32 - prefixlen n" "2::nat"] by simp
  then have one: "\<not> length (hosts n) < 1"
    using len al(1) by (cases "prefixlen n = 31 \<or> prefixlen n = 32") auto
  then have row: "make_row h n fh lh =
      \<lparr>Requested = h, Net_IP_prefix = n, Mask = netmask n, First_host = Some fh,
       Last_host = Some lh, Broadcast = broadcast_address n, Usable_IP = length (hosts n)\<rparr>"
    by (simp add: make_row_def Let_def)
  from one len show ?thesis
    by (simp add: counted_def row num_addresses_aligned [OF al(2)])
qed

lemma rows_counted:
  assumes "r \<in> set (records (allocate P hs))"
  shows "counted r"
proof -
  let ?s0 = "\<lparr>current_ip = network_address P, results = []\<rparr>"
  let ?I = "\<lambda>s. \<forall>r\<in>set (results s). counted r"
  have inv: "(loop P ?s0 (sort_reverse hs) = Next s \<longrightarrow> ?I s) \<and>
        (loop P ?s0 (sort_reverse hs) = Break e s \<longrightarrow> ?I s)" for s e
  proof (rule loop_invariant [where I = ?I and J = ?I])
    fix s h s'
    assume "?I s" and "body P s h = Next s'"
    with body_Next [of P s h s'] show "?I s'" by (auto simp add: make_row_counted)
  next
    fix s h e s'
    assume "?I s" and "body P s h = Break e s'"
    with body_Break [of P s h e s'] show "?I s'" by (auto simp add: make_row_counted)
  qed simp_all
  from assms show ?thesis
    using inv by (auto simp add: records_allocate_loop split: flow.splits)
qed

text \<open>
  Claim C7 fails on the subnet of prefix length 31 that the token \<^verbatim>\<open>0\<close> is given:
  \<^verbatim>\<open>hosts()\<close> yields both addresses of a /31, so the row shows 2 usable hosts and the
  host bounds \<^verbatim>\<open>192.168.1.1\<close> and \<^verbatim>\<open>192.168.1.0\<close>, not 0 and \<^verbatim>\<open>"N/A"\<close>.
\<close>

theorem slash_31_row:
  "skuska default_network ''0'' =
     Shown None
       (Rows [\<lparr>Requested = 0, Net_IP_prefix = \<lparr>network_address = 3232235776, prefixlen = 31\<rparr>,
               Mask = 4294967294, First_host = Some 3232235777, Last_host = Some 3232235776,
               Broadcast = 3232235777, Usable_IP = 2\<rparr>])"
  by (simp add: parse_simps run_simps)



lemma new_subnet_usable:
  assumes h: "1 \<le> h" and n: "ip_network c (new_prefix h) = Inr n"
  shows "h \<le> int (Usable_IP (make_row h n fh lh))"
proof -
  from h have two: "\<not> bits_needed h \<le> 1"
    by (simp add: bits_needed_iff)
  from n have len: "prefixlen n = nat (32 - int (bits_needed h))" "bits_needed h \<le> 32"
    by (auto simp add: ip_network_Inr new_prefix_def)
  then have k: "32 - prefixlen n = bits_needed h" by simp
  from two len have "prefixlen n \<noteq> 31" "prefixlen n \<noteq> 32" by auto
  then have l: "length (hosts n) = 2 ^ bits_needed h - 2"
    using length_hosts [OF ip_network_aligned(2) [OF n] ip_network_aligned(1) [OF n]]
    by (simp add: k)
  from h have "h + 2 \<le> 2 ^ bits_needed h"
    using bits_needed_iff [of h "bits_needed h"] by simp
  then have "h + 2 \<le> int (2 ^ bits_needed h)" by simp
  then have hl: "h \<le> int (2 ^ bits_needed h - 2)" by linarith
  with h have "\<not> length (hosts n) < 1" by (simp add: l)
  then have "Usable_IP (make_row h n fh lh) = length (hosts n)"
    by (simp add: make_row_def Let_def)
  with hl l show ?thesis by simp
qed

lemma body_covers:
  assumes rs: "\<forall>r\<in>set (results s). covers r"
    and b: "body P s h = Next s' \<or> body P s h = Break e s'"
  shows "\<forall>r\<in>set (results s'). covers r"
  using b
proof
  assume "body P s h = Next s'"
  from body_Next [OF this] rs show ?thesis
    by (auto simp add: covers_def new_subnet_usable)
next
  assume "body P s h = Break e s'"
  from body_Break [OF this] rs show ?thesis
    by (auto simp add: covers_def new_subnet_usable)
qed

lemma loop_covers:
  assumes f: "loop P \<lparr>current_ip = a, results = []\<rparr> hs = Next s' \<or>
            loop P \<lparr>current_ip = a, results = []\<rparr> hs = Break e s'"
  shows "\<forall>r\<in>set (results s'). covers r"
proof -
  let ?I = "\<lambda>s. \<forall>r\<in>set (results s). covers r"
  have "(loop P \<lparr>current_ip = a, results = []\<rparr> hs = Next s' \<longrightarrow> ?I s') \<and>
        (loop P \<lparr>current_ip = a, results = []\<rparr> hs = Break e s' \<longrightarrow> ?I s')"
    by (rule loop_invariant [where I = ?I and J = ?I]) (use body_covers in \<open>blast+\<close>, simp)
  with f show ?thesis by blast
qed

text \<open>
  Claim C10. In the table of every run, a row whose requested host count is positive shows
  at least that many usable hosts.
\<close>

theorem usable_covers_requested:
  assumes "r \<in> set (records (allocate P hosts_list0))" and "1 \<le> Requested r"
  shows "Requested r \<le> int (Usable_IP r)"
  using assms(1)
proof (rule records_allocate)
  fix s
  assume "loop P \<lparr>current_ip = network_address P, results = []\<rparr> (sort_reverse hosts_list0) = Next s"
    and "r \<in> set (results s)"
  with loop_covers [of P "network_address P" "sort_reverse hosts_list0" s] assms(2)
  show ?thesis by (auto simp add: covers_def)
next
  fix e s
  assume "loop P \<lparr>current_ip = network_address P, results = []\<rparr> (sort_reverse hosts_list0) = Break e s"
    and "r \<in> set (results s)"
  with loop_covers [of P "network_address P" "sort_reverse hosts_list0" s e] assms(2)
  show ?thesis by (auto simp add: covers_def)
qed

text \<open>The row of 50 hosts in the run on 50, 100 and 20 hosts: 62 usable hosts.\<close>

theorem usable_covers_requested_witness:
  "\<lparr>Requested = 50, Net_IP_prefix = \<lparr>network_address = 3232235904, prefixlen = 26\<rparr>,
     Mask = 4294967232, First_host = Some 3232235905, Last_host = Some 3232235966,
     Broadcast = 3232235967, Usable_IP = 62\<rparr>
     \<in> set (records (allocate default_network [50, 100, 20])) \<and>
   (1::int) \<le> 50 \<and> (50::int) \<le> int 62"
proof -
  let ?r = "\<lparr>Requested = 50, Net_IP_prefix = \<lparr>network_address = 3232235904, prefixlen = 26\<rparr>,
     Mask = 4294967232, First_host = Some 3232235905, Last_host = Some 3232235966,
     Broadcast = 3232235967, Usable_IP = 62\<rparr>"
  have m: "?r \<in> set (records (allocate default_network [50, 100, 20]))"
    by (simp add: run_simps)
  have p: "1 \<le> Requested ?r" by simp
  from usable_covers_requested [OF m p] m show ?thesis by simp
qed

section \<open>The order of the host list\<close>

text \<open>
  Claim C8. The host list is processed in descending order: the sorted list is descending
  and a rearrangement of the list that was entered, the requested counts of the rows of the
  table are an initial part of the sorted list, in its order, and all of it when the run ends
  without a message. Two host lists with the same entries in another order are sorted to the
  same list and give the same outcome, rows or message, for every parent network.
\<close>

theorem allocate_permutation:
  assumes "mset xs = mset ys"
  shows "sorted_wrt (\<lambda>a b. b \<le> a) (sort_reverse xs) \<and> mset (sort_reverse xs) = mset xs \<and>
         sort_reverse xs = sort_reverse ys \<and> allocate P xs = allocate P ys \<and>
         map Requested (records (allocate P xs)) =
           take (length (records (allocate P xs))) (sort_reverse xs) \<and>
         (\<forall>t. allocate P xs = Shown None t \<longrightarrow>
            map Requested (records (allocate P xs)) = sort_reverse xs)"
proof (intro conjI allI impI)
  show "sorted_wrt (\<lambda>a b. b \<le> a) (sort_reverse xs)" by (rule sort_reverse_descending)
  show "mset (sort_reverse xs) = mset xs" by (simp add: sort_reverse_def)
  show eq: "sort_reverse xs = sort_reverse ys" using assms by (rule sort_reverse_mset)
  then show "allocate P xs = allocate P ys" by (simp add: allocate_def)
  show "map Requested (records (allocate P xs)) =
      take (length (records (allocate P xs))) (sort_reverse xs)"
    by (rule allocate_rows_descending)
next
  fix t
  assume "allocate P xs = Shown None t"
  then show "map Requested (records (allocate P xs)) = sort_reverse xs"
    by (rule allocate_rows_complete)
qed

text \<open>
  The lists 50, 100, 20 and 20, 50, 100 in \<^verbatim>\<open>192.168.1.0/24\<close>: both give the rows of 100, 50
  and 20 hosts, in this order.
\<close>

theorem allocate_permutation_witness:
  "mset [50, 100, 20 :: int] = mset [20, 50, 100] \<and>
   sort_reverse [50, 100, 20] = [100, 50, 20] \<and>
   sort_reverse [20, 50, 100] = [100, 50, 20] \<and>
   allocate default_network [50, 100, 20] = allocate default_network [20, 50, 100] \<and>
   allocate default_network [20, 50, 100] =
     Shown None
       (Rows [\<lparr>Requested = 100, Net_IP_prefix = \<lparr>network_address = 3232235776, prefixlen = 25\<rparr>,
               Mask = 4294967168, First_host = Some 3232235777, Last_host = Some 3232235902,
               Broadcast = 3232235903, Usable_IP = 126\<rparr>,
              \<lparr>Requested = 50, Net_IP_prefix = \<lparr>network_address = 3232235904, prefixlen = 26\<rparr>,
               Mask = 4294967232, First_host = Some 3232235905, Last_host = Some 3232235966,
               Broadcast = 3232235967, Usable_IP = 62\<rparr>,
              \<lparr>Requested = 20, Net_IP_prefix = \<lparr>network_address = 3232235968, prefixlen = 27\<rparr>,
               Mask = 4294967264, First_host = Some 3232235969, Last_host = Some 3232235998,
               Broadcast = 3232235999, Usable_IP = 30\<rparr>]) \<and>
   map Requested (records (allocate default_network [50, 100, 20])) = [100, 50, 20]"
proof -
  have m: "mset [50, 100, 20 :: int] = mset [20, 50, 100]" by simp
  have s: "sort_reverse [50, 100, 20] = [100, 50, 20]" by (simp add: sort_reverse_def)
  have a: "allocate default_network [50, 100, 20] =
     Shown None
       (Rows [\<lparr>Requested = 100, Net_IP_prefix = \<lparr>network_address = 3232235776, prefixlen = 25\<rparr>,
               Mask = 4294967168, First_host = Some 3232235777, Last_host = Some 3232235902,
               Broadcast = 3232235903, Usable_IP = 126\<rparr>,
              \<lparr>Requested = 50, Net_IP_prefix = \<lparr>network_address = 3232235904, prefixlen = 26\<rparr>,
               Mask = 4294967232, First_host = Some 3232235905, Last_host = Some 3232235966,
               Broadcast = 3232235967, Usable_IP = 62\<rparr>,
              \<lparr>Requested = 20, Net_IP_prefix = \<lparr>network_address = 3232235968, prefixlen = 27\<rparr>,
               Mask = 4294967264, First_host = Some 3232235969, Last_host = Some 3232235998,
               Broadcast = 3232235999, Usable_IP = 30\<rparr>])"
    by (simp add: run_simps)
  note p = allocate_permutation [OF m, of default_network]
  from p have e: "allocate default_network [50, 100, 20] = allocate default_network [20, 50, 100]"
    by blast
  from p a have r: "map Requested (records (allocate default_network [50, 100, 20])) =
      sort_reverse [50, 100, 20]" by blast
  from p have s': "sort_reverse [20, 50, 100] = [100, 50, 20]" by (simp add: s)
  from m s s' e a r show ?thesis by (simp only: simp_thms)
qed

end
